theory Spec2Isabelle
  imports Complex_Main
begin

section \<open>PageRank (pagerank.py): data model\<close>

text \<open>
  The corpus is a Python dictionary from page names to sets of page names. A dictionary
  keeps its keys in insertion order and the loops of the program run in that order, so a
  dictionary is an association list whose keys are distinct. A link set is a list without
  duplicates; the program reads a link set through \<open>len\<close>, \<open>in\<close>, truth value and
  iteration. Python's floats are idealised as real numbers, so the arithmetic of the
  functions below is exact; the rounding of doubles is modelled for \<open>transition_model\<close>
  in a section of its own. Every exception the program can raise is a value of
  \<open>error\<close>.
\<close>

datatype error = KeyError | ZeroDivisionError | IndexError | ValueError

type_synonym page = string
type_synonym corpus = "(page \<times> page list) list"
type_synonym dist = "(page \<times> real) list"

text \<open>\<open>d[k]\<close>: raises KeyError when the key is missing.\<close>

fun dict_get :: "('k \<times> 'v) list \<Rightarrow> 'k \<Rightarrow> error + 'v" where
  "dict_get [] k = Inl KeyError"
| "dict_get ((k', v) # kvs) k = (if k' = k then Inr v else dict_get kvs k)"

text \<open>\<open>d[k] = v\<close>: overwrites in place, or appends a new key at the end.\<close>

fun dict_set :: "('k \<times> 'v) list \<Rightarrow> 'k \<Rightarrow> 'v \<Rightarrow> ('k \<times> 'v) list" where
  "dict_set [] k v = [(k, v)]"
| "dict_set ((k', v') # kvs) k v =
     (if k' = k then (k, v) # kvs else (k', v') # dict_set kvs k v)"

definition keys :: "('k \<times> 'v) list \<Rightarrow> 'k list" where
  "keys d = map fst d"

definition dict_values :: "('k \<times> 'v) list \<Rightarrow> 'v list" where
  "dict_values d = map snd d"

text \<open>\<open>{}.fromkeys(ks, v)\<close>\<close>

definition fromkeys :: "'k list \<Rightarrow> 'v \<Rightarrow> ('k \<times> 'v) list" where
  "fromkeys ks v = fold (\<lambda>k d. dict_set d k v) ks []"

text \<open>\<open>x / y\<close> on numbers: raises ZeroDivisionError when \<open>y\<close> is zero.\<close>

definition py_div :: "real \<Rightarrow> real \<Rightarrow> error + real" where
  "py_div x y = (if y = 0 then Inl ZeroDivisionError else Inr (x / y))"

text \<open>\<open>xs[i]\<close> on a list: a negative index counts from the end.\<close>

definition list_get :: "'a list \<Rightarrow> int \<Rightarrow> error + 'a" where
  "list_get xs i =
     (let j = (if i < 0 then i + int (length xs) else i)
      in if j < 0 \<or> int (length xs) \<le> j then Inl IndexError else Inr (xs ! nat j))"

text \<open>
  A \<open>for\<close> loop whose body may raise: the body takes the loop variable and the state
  and returns the new state, and the first exception ends the loop.
\<close>

fun for_each :: "'a list \<Rightarrow> ('a \<Rightarrow> 's \<Rightarrow> error + 's) \<Rightarrow> 's \<Rightarrow> error + 's" where
  "for_each [] body s = Inr s"
| "for_each (x # xs) body s =
     (case body x s of Inl e \<Rightarrow> Inl e | Inr s' \<Rightarrow> for_each xs body s')"

section \<open>transition_model\<close>

definition transition_model :: "corpus \<Rightarrow> page \<Rightarrow> real \<Rightarrow> error + dist" where
  "transition_model corpus page damping_factor =
     (case dict_get corpus page of
        Inl e \<Rightarrow> Inl e
      | Inr links \<Rightarrow>
          let num_pages = length corpus; num_links = length links in
          if links \<noteq> [] then
            (case for_each (keys corpus)
                    (\<lambda>key d. case py_div (1 - damping_factor) (real num_pages) of
                                Inl e \<Rightarrow> Inl e
                              | Inr v \<Rightarrow> Inr (dict_set d key v)) [] of
               Inl e \<Rightarrow> Inl e
             | Inr d \<Rightarrow>
                 for_each links
                   (\<lambda>key d. case dict_get d key of
                               Inl e \<Rightarrow> Inl e
                             | Inr v \<Rightarrow>
                                 (case py_div damping_factor (real num_links) of
                                    Inl e \<Rightarrow> Inl e
                                  | Inr w \<Rightarrow> Inr (dict_set d key (v + w)))) d)
          else
            for_each (keys corpus)
              (\<lambda>key d. case py_div 1 (real num_pages) of
                          Inl e \<Rightarrow> Inl e
                        | Inr v \<Rightarrow> Inr (dict_set d key v)) [])"

section \<open>transition_model in double precision\<close>

text \<open>
  A Python float is an IEEE 754 binary64 number and every arithmetic operation returns
  the exact result rounded to the nearest such number, ties to the even significand.
  \<open>double_round\<close> is that rounding: 53 significant bits, least exponent \<open>-1022\<close> (below
  it the spacing stays \<open>2 ^ -1074\<close>). Overflow to infinity is not modelled; no operation
  of \<open>transition_model\<close> with a damping factor between 0 and 1 comes near it.
\<close>

definition pow2 :: "int \<Rightarrow> real" where
  "pow2 e = (if 0 \<le> e then 2 ^ nat e else 1 / 2 ^ nat (- e))"





section \<open>random.choices\<close>

text \<open>
  The generator is the sequence of numbers that its successive \<open>random()\<close> calls return,
  each in the interval from 0 (included) to 1 (excluded).
\<close>

type_synonym rng = "nat \<Rightarrow> real"

definition random :: "rng \<Rightarrow> real \<times> rng" where
  "random g = (g 0, \<lambda>i. g (Suc i))"

definition list_rng :: "real list \<Rightarrow> rng" where
  "list_rng us = (\<lambda>i. if i < length us then us ! i else 0)"

fun accumulate :: "real \<Rightarrow> real list \<Rightarrow> real list" where
  "accumulate acc [] = []"
| "accumulate acc (w # ws) = (acc + w) # accumulate (acc + w) ws"

text \<open>\<open>bisect.bisect_right(a, x, lo, hi)\<close>, called with \<open>hi < len(a)\<close>.\<close>

function bisect :: "real list \<Rightarrow> real \<Rightarrow> nat \<Rightarrow> nat \<Rightarrow> nat" where
  "bisect a x lo hi =
     (if lo < hi then
        (let mid = (lo + hi) div 2
         in if x < a ! mid then bisect a x lo mid else bisect a x (mid + 1) hi)
      else lo)"
  by pat_completeness auto
termination
  by (relation "measure (\<lambda>(a, x, lo, hi). hi - lo)") auto

declare bisect.simps [simp del]

text \<open>
  \<open>random.choices(population, weights=weights, k=1)[0]\<close> of the standard library:
  without weights the element at index \<open>floor(random() * n)\<close>; with weights the element
  found by bisection of the cumulative weights at \<open>random() * total\<close>. An empty
  population raises IndexError on either path.
\<close>

definition choices :: "'a list \<Rightarrow> real list option \<Rightarrow> rng \<Rightarrow> error + ('a \<times> rng)" where
  "choices population weights g =
     (let n = length population in
      case weights of
        None \<Rightarrow>
          (let (u, g') = random g in
           case list_get population \<lfloor>u * real n\<rfloor> of
             Inl e \<Rightarrow> Inl e
           | Inr x \<Rightarrow> Inr (x, g'))
      | Some ws \<Rightarrow>
          (let cum_weights = accumulate 0 ws in
           if length cum_weights \<noteq> n then Inl ValueError
           else
             (case list_get cum_weights (- 1) of
                Inl e \<Rightarrow> Inl e
              | Inr total_weight \<Rightarrow>
                  if total_weight \<le> 0 then Inl ValueError
                  else
                    (let (u, g') = random g in
                     case list_get population (int (bisect cum_weights (u * total_weight) 0 (n - 1))) of
                       Inl e \<Rightarrow> Inl e
                     | Inr x \<Rightarrow> Inr (x, g')))))"

section \<open>sample_pagerank\<close>

text \<open>
  The inner loop \<open>for _page in d: d[_page] = (((i - 1) * d[_page]) + current_dist[_page]) / i\<close>.
\<close>

definition sample_update :: "int \<Rightarrow> dist \<Rightarrow> dist \<Rightarrow> error + dist" where
  "sample_update i current_dist d =
     for_each (keys d)
       (\<lambda>p d. case dict_get d p of
                 Inl e \<Rightarrow> Inl e
               | Inr v \<Rightarrow>
                   (case dict_get current_dist p of
                      Inl e \<Rightarrow> Inl e
                    | Inr c \<Rightarrow>
                        (case py_div ((real_of_int i - 1) * v + c) (real_of_int i) of
                           Inl e \<Rightarrow> Inl e
                         | Inr w \<Rightarrow> Inr (dict_set d p w)))) d"

text \<open>
  One pass of the body of \<open>for i in range(1, n)\<close>; the state is the accumulator \<open>d\<close>,
  the current page and the generator.
\<close>

definition sample_step ::
  "corpus \<Rightarrow> real \<Rightarrow> int \<Rightarrow> dist \<times> page \<times> rng \<Rightarrow> error + (dist \<times> page \<times> rng)" where
  "sample_step corpus damping_factor i st =
     (case st of (d, page, g) \<Rightarrow>
        (case transition_model corpus page damping_factor of
           Inl e \<Rightarrow> Inl e
         | Inr current_dist \<Rightarrow>
             (case sample_update i current_dist d of
                Inl e \<Rightarrow> Inl e
              | Inr d' \<Rightarrow>
                  (case choices (keys d') (Some (dict_values d')) g of
                     Inl e \<Rightarrow> Inl e
                   | Inr (page', g') \<Rightarrow> Inr (d', page', g')))))"

definition sample_pagerank :: "corpus \<Rightarrow> real \<Rightarrow> int \<Rightarrow> rng \<Rightarrow> error + dist" where
  "sample_pagerank corpus damping_factor n g =
     (let d = fromkeys (keys corpus) 0 in
      case choices (keys corpus) None g of
        Inl e \<Rightarrow> Inl e
      | Inr (page, g') \<Rightarrow>
          (case for_each [1..n - 1] (sample_step corpus damping_factor) (d, page, g') of
             Inl e \<Rightarrow> Inl e
           | Inr (d', page', g'') \<Rightarrow> Inr d'))"

section \<open>iterate_pagerank\<close>

definition get_sum :: "corpus \<Rightarrow> dist \<Rightarrow> page \<Rightarrow> error + real" where
  "get_sum corpus distribution page =
     for_each (keys corpus)
       (\<lambda>p result.
          case dict_get corpus p of
            Inl e \<Rightarrow> Inl e
          | Inr links \<Rightarrow>
              if page \<in> set links then
                (case dict_get distribution p of
                   Inl e \<Rightarrow> Inl e
                 | Inr v \<Rightarrow>
                     (case py_div v (real (length links)) of
                        Inl e \<Rightarrow> Inl e
                      | Inr w \<Rightarrow> Inr (result + w)))
              else Inr result) 0"

text \<open>
  The body of \<open>for page in corpus\<close> inside the \<open>while\<close> loop; the state is the
  distribution being updated in place and the flag \<open>change\<close>. The right operand of
  \<open>or\<close> is evaluated only when \<open>change\<close> is still false.
\<close>

definition sweep_step ::
  "corpus \<Rightarrow> real \<Rightarrow> nat \<Rightarrow> dist \<Rightarrow> page \<Rightarrow> dist \<times> bool \<Rightarrow> error + (dist \<times> bool)" where
  "sweep_step corpus damping_factor total_pages old_distribution page st =
     (case st of (distribution, change) \<Rightarrow>
        (case py_div (1 - damping_factor) (real total_pages) of
           Inl e \<Rightarrow> Inl e
         | Inr base \<Rightarrow>
             (case get_sum corpus distribution page of
                Inl e \<Rightarrow> Inl e
              | Inr s \<Rightarrow>
                  (let distribution' = dict_set distribution page (base + damping_factor * s) in
                   if change then Inr (distribution', True)
                   else
                     (case dict_get old_distribution page of
                        Inl e \<Rightarrow> Inl e
                      | Inr ov \<Rightarrow>
                          (case dict_get distribution' page of
                             Inl e \<Rightarrow> Inl e
                           | Inr nv \<Rightarrow> Inr (distribution', \<bar>ov - nv\<bar> > 1 / 1000)))))))"

text \<open>
  One pass of the body of \<open>while change\<close>: reset the flag, take the snapshot, run the
  \<open>for\<close> loop over the pages.
\<close>

definition sweep :: "corpus \<Rightarrow> real \<Rightarrow> nat \<Rightarrow> dist \<Rightarrow> error + (dist \<times> bool)" where
  "sweep corpus damping_factor total_pages distribution =
     (let old_distribution = distribution in
      for_each (keys corpus)
        (sweep_step corpus damping_factor total_pages old_distribution)
        (distribution, False))"

text \<open>
  \<open>while change\<close>, entered with \<open>change = True\<close>: the body runs at least once and the
  loop ends after the first pass that leaves the flag false. The loop need not end, so
  the result is an option and \<open>None\<close> stands for a run that never returns.
\<close>

partial_function (option) while_change ::
  "('s \<Rightarrow> error + ('s \<times> bool)) \<Rightarrow> 's \<Rightarrow> (error + 's) option" where
  "while_change body s =
     (case body s of
        Inl e \<Rightarrow> Some (Inl e)
      | Inr (s', change) \<Rightarrow> if change then while_change body s' else Some (Inr s'))"

definition iterate_pagerank :: "corpus \<Rightarrow> real \<Rightarrow> (error + dist) option" where
  "iterate_pagerank corpus damping_factor =
     (let total_pages = length corpus in
      case py_div 1 (real total_pages) of
        Inl e \<Rightarrow> Some (Inl e)
      | Inr v \<Rightarrow>
          while_change (sweep corpus damping_factor total_pages)
            (fromkeys (keys corpus) v))"

section \<open>The specification's reading, for comparison with the code\<close>

text \<open>
  Step 3c of the Sampling Estimator as the specification words it: the next page is
  drawn from \<open>current\<close>, the transition distribution of this step. Everything else is
  the code's.
\<close>

definition sample_step_spec ::
  "corpus \<Rightarrow> real \<Rightarrow> int \<Rightarrow> dist \<times> page \<times> rng \<Rightarrow> error + (dist \<times> page \<times> rng)" where
  "sample_step_spec corpus damping_factor i st =
     (case st of (d, page, g) \<Rightarrow>
        (case transition_model corpus page damping_factor of
           Inl e \<Rightarrow> Inl e
         | Inr current_dist \<Rightarrow>
             (case sample_update i current_dist d of
                Inl e \<Rightarrow> Inl e
              | Inr d' \<Rightarrow>
                  (case choices (keys current_dist) (Some (dict_values current_dist)) g of
                     Inl e \<Rightarrow> Inl e
                   | Inr (page', g') \<Rightarrow> Inr (d', page', g')))))"

definition sample_pagerank_spec :: "corpus \<Rightarrow> real \<Rightarrow> int \<Rightarrow> rng \<Rightarrow> error + dist" where
  "sample_pagerank_spec corpus damping_factor n g =
     (let d = fromkeys (keys corpus) 0 in
      case choices (keys corpus) None g of
        Inl e \<Rightarrow> Inl e
      | Inr (page, g') \<Rightarrow>
          (case for_each [1..n - 1] (sample_step_spec corpus damping_factor) (d, page, g') of
             Inl e \<Rightarrow> Inl e
           | Inr (d', page', g'') \<Rightarrow> Inr d'))"

text \<open>The rank a distribution gives a page, read as a function (0 for a page it lacks).\<close>

definition rank_of :: "dist \<Rightarrow> page \<Rightarrow> real" where
  "rank_of d p = (case dict_get d p of Inl e \<Rightarrow> 0 | Inr v \<Rightarrow> v)"

text \<open>
  The link sum of the specification: the sum, over the pages \<open>q\<close> whose link set
  contains \<open>p\<close>, of \<open>rank q / |links(q)|\<close>.
\<close>

definition link_sum :: "corpus \<Rightarrow> (page \<Rightarrow> real) \<Rightarrow> page \<Rightarrow> real" where
  "link_sum corpus rank p =
     sum_list (map (\<lambda>(q, links). if p \<in> set links then rank q / real (length links) else 0) corpus)"

text \<open>
  The synchronous sweep of the specification: every page gets its new rank from the
  snapshot \<open>old\<close> alone.
\<close>

definition jacobi_sweep :: "corpus \<Rightarrow> real \<Rightarrow> dist \<Rightarrow> dist" where
  "jacobi_sweep corpus damping_factor old =
     map (\<lambda>p. (p, (1 - damping_factor) / real (length corpus)
                    + damping_factor * link_sum corpus (rank_of old) p)) (keys corpus)"

text \<open>
  The faults the specification calls low-level: Python's arithmetic and lookup errors.
\<close>

fun low_level_fault :: "error \<Rightarrow> bool" where
  "low_level_fault ZeroDivisionError = True"
| "low_level_fault IndexError = True"
| "low_level_fault KeyError = True"
| "low_level_fault ValueError = False"

text \<open>
  Two representations of one corpus value: the same keys in the same order, and under
  each key the same set of links, whatever the order in which each set is listed.
\<close>

definition same_corpus :: "corpus \<Rightarrow> corpus \<Rightarrow> bool" where
  "same_corpus c1 c2 =
     list_all2 (\<lambda>(p1, links1) (p2, links2).
        p1 = p2 \<and> set links1 = set links2 \<and> distinct links1 \<and> distinct links2) c1 c2"

section \<open>Dictionaries and loops\<close>

lemma keys_Nil [simp]: "keys [] = []"
  by (simp add: keys_def)
lemma keys_Cons [simp]: "keys (kv # d) = fst kv # keys d"
  by (simp add: keys_def)
lemma length_keys [simp]: "length (keys d) = length d"
  by (simp add: keys_def)

lemma dict_get_dict_set:
  "dict_get (dict_set d k v) k' = (if k' = k then Inr v else dict_get d k')"
  by (induction d) auto

lemma keys_dict_set_present: "k \<in> set (keys d) \<Longrightarrow> keys (dict_set d k v) = keys d"
  by (induction d) auto

lemma keys_dict_set_fresh: "k \<notin> set (keys d) \<Longrightarrow> dict_set d k v = d @ [(k, v)]"
  by (induction d) auto

lemma dict_get_present: "k \<in> set (keys d) \<Longrightarrow> \<exists>v. dict_get d k = Inr v"
  by (induction d) auto

lemma dict_get_Inr_mem: "dict_get d k = Inr v \<Longrightarrow> (k, v) \<in> set d"
  by (induction d) (auto split: if_splits)

lemma dict_get_distinct: "distinct (keys d) \<Longrightarrow> (k, v) \<in> set d \<Longrightarrow> dict_get d k = Inr v"
  by (induction d) (auto simp: rev_image_eqI keys_def)


lemma fold_dict_set_fresh:
  "distinct ks \<Longrightarrow> set ks \<inter> set (keys acc) = {} \<Longrightarrow>
   fold (\<lambda>k d. dict_set d k v) ks acc = acc @ map (\<lambda>k. (k, v)) ks"
proof (induction ks arbitrary: acc)
  case Nil
  then show ?case by simp
next
  case (Cons k ks)
  from Cons.prems have fresh: "k \<notin> set (keys acc)" by auto
  have step: "dict_set acc k v = acc @ [(k, v)]" using fresh by (rule keys_dict_set_fresh)
  have "set ks \<inter> set (keys (acc @ [(k, v)])) = {}"
    using Cons.prems by (auto simp: keys_def)
  with Cons.IH [of "acc @ [(k, v)]"] Cons.prems step show ?case by simp
qed

lemma fromkeys_distinct: "distinct ks \<Longrightarrow> fromkeys ks v = map (\<lambda>k. (k, v)) ks"
  by (simp add: fromkeys_def fold_dict_set_fresh)

lemma for_each_assign_const:
  "distinct ks \<Longrightarrow> set ks \<inter> set (keys acc) = {} \<Longrightarrow> y \<noteq> 0 \<Longrightarrow>
   for_each ks (\<lambda>key d. case py_div x y of Inl e \<Rightarrow> Inl e | Inr v \<Rightarrow> Inr (dict_set d key v)) acc
     = Inr (acc @ map (\<lambda>k. (k, x / y)) ks)"
proof (induction ks arbitrary: acc)
  case Nil
  then show ?case by simp
next
  case (Cons k ks)
  from Cons.prems have fresh: "k \<notin> set (keys acc)" by auto
  have step: "dict_set acc k (x / y) = acc @ [(k, x / y)]" using fresh by (rule keys_dict_set_fresh)
  have "set ks \<inter> set (keys (acc @ [(k, x / y)])) = {}"
    using Cons.prems by (auto simp: keys_def)
  with Cons.IH [of "acc @ [(k, x / y)]"] Cons.prems step show ?case by (simp add: py_div_def)
qed


section \<open>Properties of transition_model\<close>




subsection \<open>Rounding to double precision\<close>

lemma pow2_powr: "pow2 e = 2 powr (of_int e)"
  by (simp add: pow2_def powr_real_of_int field_simps)



lemma pow2_nonzero [simp]: "pow2 e \<noteq> 0"
  by (simp add: pow2_powr)

































text \<open>
  Claim C6. For a page of the corpus whose link set is empty, \<open>transition_model\<close>
  returns the uniform distribution that gives \<open>1 / N\<close> to every page of the corpus,
  whatever the damping factor; for the corpus \<open>{A: {B}, B: {}}\<close> and damping 0.85 the
  distribution from page B is \<open>{A: 0.5, B: 0.5}\<close>.
\<close>

theorem transition_model_dangling:
  assumes "distinct (keys corpus)" and "dict_get corpus page = Inr []"
  shows "transition_model corpus page damping_factor
           = Inr (map (\<lambda>k. (k, 1 / real (length corpus))) (keys corpus))
         \<and> transition_model [(''A'', [''B'']), (''B'', [])] ''B'' (17 / 20)
           = Inr [(''A'', 1 / 2), (''B'', 1 / 2)]"
proof
  have "corpus \<noteq> []" using assms(2) by auto
  then have n0: "real (length corpus) \<noteq> 0" by simp
  show "transition_model corpus page damping_factor
           = Inr (map (\<lambda>k. (k, 1 / real (length corpus))) (keys corpus))"
    using assms(2) for_each_assign_const [OF assms(1) _ n0, of "[]" 1]
    by (simp add: transition_model_def)
  show "transition_model [(''A'', [''B'']), (''B'', [])] ''B'' (17 / 20)
           = Inr [(''A'', 1 / 2), (''B'', 1 / 2)]"
    by (simp add: transition_model_def keys_def py_div_def)
qed

theorem transition_model_dangling_witness:
  "distinct (keys [(''A'', [''B'', ''C'']), (''B'', []), (''C'', [''A''])])
   \<and> dict_get [(''A'', [''B'', ''C'']), (''B'', []), (''C'', [''A''])] ''B'' = Inr []
   \<and> transition_model [(''A'', [''B'', ''C'']), (''B'', []), (''C'', [''A''])] ''B'' (17 / 20)
       = Inr [(''A'', 1 / 3), (''B'', 1 / 3), (''C'', 1 / 3)]"
  using transition_model_dangling [of "[(''A'', [''B'', ''C'']), (''B'', []), (''C'', [''A''])]" "''B''" "17 / 20"]
  by (simp add: keys_def)

section \<open>Properties of sample_pagerank\<close>

lemma list_get_in_range: "0 \<le> i \<Longrightarrow> i < int (length xs) \<Longrightarrow> list_get xs i = Inr (xs ! nat i)"
  by (simp add: list_get_def)

lemma uniform_index_in_range:
  assumes "0 \<le> u" and "u < 1" and "0 < n"
  shows "0 \<le> \<lfloor>u * real n\<rfloor> \<and> \<lfloor>u * real n\<rfloor> < int n"
proof
  show "0 \<le> \<lfloor>u * real n\<rfloor>" using assms by simp
  have "u * real n < real n" using assms by simp
  then show "\<lfloor>u * real n\<rfloor> < int n" by (simp add: floor_less_iff)
qed

lemmas sample_eval = sample_pagerank_def sample_pagerank_spec_def sample_step_def sample_step_spec_def
  sample_update_def transition_model_def choices_def random_def list_rng_def list_get_def
  py_div_def fromkeys_def keys_def dict_values_def

text \<open>
  Claim C1. At every step of the loop of \<open>sample_pagerank\<close> the next page is to be
  drawn from the transition distribution \<open>current_dist\<close> of that step, as the comment
  above the draw says. The code passes the accumulator \<open>d\<close> to \<open>random.choices\<close>
  instead. The two agree at the first step, where the accumulator equals the
  transition distribution, and need not afterwards. On the corpus \<open>{A: {B}, B: {}}\<close> with
  damping 0.85, \<open>n = 4\<close> and the generator outputs 0.1, 0.9, 0.4 the walk starts at A,
  moves to B, and at step 2 the code draws B from the weights 0.2875, 0.7125 where the
  transition distribution 0.5, 0.5 gives A; the two results differ.
\<close>

theorem sample_draws_from_accumulator:
  "sample_pagerank [(''A'', [''B'']), (''B'', [])] (17 / 20) 4 (list_rng [1 / 10, 9 / 10, 2 / 5])
     = Inr [(''A'', 43 / 120), (''B'', 77 / 120)]
   \<and> sample_pagerank_spec [(''A'', [''B'']), (''B'', [])] (17 / 20) 4 (list_rng [1 / 10, 9 / 10, 2 / 5])
     = Inr [(''A'', 13 / 60), (''B'', 47 / 60)]"
  by (simp add: sample_eval upto.simps bisect.simps)

text \<open>
  Claim C7, as stated: on the empty corpus the failure of the ranking functions is a
  descriptive error and not an arithmetic or indexing fault. It is not: the IndexError
  of \<open>random.choices\<close> and the ZeroDivisionError of \<open>1.0 / total_pages\<close> leave the
  functions as they are raised.
\<close>

theorem empty_corpus_not_descriptive:
  "sample_pagerank [] (17 / 20) 10000 (list_rng [1 / 2]) = Inl IndexError
   \<and> low_level_fault IndexError
   \<and> iterate_pagerank [] (17 / 20) = Some (Inl ZeroDivisionError)
   \<and> low_level_fault ZeroDivisionError"
  by (simp add: sample_pagerank_def choices_def list_get_def random_def iterate_pagerank_def py_div_def)

text \<open>
  Claim C7, amended. For the empty corpus, whatever the damping factor, the sample count
  and the generator, \<open>sample_pagerank\<close> fails with the IndexError raised by the draw of
  the start page and \<open>iterate_pagerank\<close> fails with the ZeroDivisionError of
  \<open>1.0 / total_pages\<close>; neither is converted to another error.
\<close>

theorem empty_corpus_raw_faults:
  "sample_pagerank [] damping_factor n g = Inl IndexError
   \<and> iterate_pagerank [] damping_factor = Some (Inl ZeroDivisionError)"
  by (simp add: sample_pagerank_def choices_def list_get_def random_def iterate_pagerank_def py_div_def)

text \<open>
  Claim C8. For a non-empty corpus and any damping factor, \<open>sample_pagerank\<close> with
  \<open>n = 1\<close> returns the initial accumulator, every page of the corpus mapped to 0: the
  start page is drawn, the loop body never runs.
\<close>

theorem sample_pagerank_n1:
  assumes "corpus \<noteq> []" and "distinct (keys corpus)" and "0 \<le> g 0" and "g 0 < 1"
  shows "sample_pagerank corpus damping_factor 1 g = Inr (fromkeys (keys corpus) 0)
         \<and> fromkeys (keys corpus) 0 = map (\<lambda>p. (p, 0)) (keys corpus)"
proof
  have n: "0 < length (keys corpus)" using assms(1) by simp
  have "list_get (keys corpus) \<lfloor>g 0 * real (length (keys corpus))\<rfloor>
          = Inr (keys corpus ! nat \<lfloor>g 0 * real (length (keys corpus))\<rfloor>)"
    using uniform_index_in_range [OF assms(3,4) n] by (intro list_get_in_range) auto
  then show "sample_pagerank corpus damping_factor 1 g = Inr (fromkeys (keys corpus) 0)"
    by (simp add: sample_pagerank_def choices_def random_def)
  show "fromkeys (keys corpus) 0 = map (\<lambda>p. (p, 0)) (keys corpus)"
    using assms(2) by (rule fromkeys_distinct)
qed

theorem sample_pagerank_n1_witness:
  "[(''A'', [''B'']), (''B'', [])] \<noteq> [] \<and> distinct (keys [(''A'', [''B'']), (''B'', [])])
   \<and> 0 \<le> list_rng [1 / 2] 0 \<and> list_rng [1 / 2] 0 < 1
   \<and> sample_pagerank [(''A'', [''B'']), (''B'', [])] (17 / 20) 1 (list_rng [1 / 2])
        = Inr [(''A'', 0), (''B'', 0)]"
proof -
  have c: "[(''A'', [''B'']), (''B'', [])] \<noteq> ([] :: corpus)"
    "distinct (keys [(''A'', [''B'']), (''B'', [])])"
    by simp_all
  have h: "0 \<le> list_rng [1 / 2] 0" "list_rng [1 / 2] 0 < 1"
    by (simp_all add: list_rng_def)
  show ?thesis
    using sample_pagerank_n1 [of "[(''A'', [''B'']), (''B'', [])]" "list_rng [1 / 2]" "17 / 20", OF c h] h
    by (simp add: fromkeys_def)
qed

section \<open>Properties of iterate_pagerank\<close>

lemma rank_of_get: "dict_get d p = Inr v \<Longrightarrow> rank_of d p = v"
  by (simp add: rank_of_def)

lemma rank_of_dict_set: "rank_of (dict_set d k v) q = (if q = k then v else rank_of d q)"
  by (simp add: rank_of_def dict_get_dict_set)

lemma get_sum_loop:
  assumes "\<And>q l. (q, l) \<in> set items \<Longrightarrow> dict_get corpus q = Inr l \<and> q \<in> set (keys distribution)"
  shows "for_each (map fst items)
       (\<lambda>p result.
          case dict_get corpus p of
            Inl e \<Rightarrow> Inl e
          | Inr links \<Rightarrow>
              if page \<in> set links then
                (case dict_get distribution p of
                   Inl e \<Rightarrow> Inl e
                 | Inr v \<Rightarrow>
                     (case py_div v (real (length links)) of
                        Inl e \<Rightarrow> Inl e
                      | Inr w \<Rightarrow> Inr (result + w)))
              else Inr result) r
     = Inr (r + sum_list (map (\<lambda>(q, links). if page \<in> set links
                                then rank_of distribution q / real (length links) else 0) items))"
  using assms
proof (induction items arbitrary: r)
  case Nil
  show ?case by simp
next
  case (Cons it items)
  obtain q l where it: "it = (q, l)" by (cases it)
  have cq: "dict_get corpus q = Inr l" and qd: "q \<in> set (keys distribution)"
    using Cons.prems [of q l] it by auto
  obtain v where v: "dict_get distribution q = Inr v"
    using dict_get_present [OF qd] by auto
  have rest: "\<And>q l. (q, l) \<in> set items \<Longrightarrow> dict_get corpus q = Inr l \<and> q \<in> set (keys distribution)"
    using Cons.prems by auto
  show ?case
  proof (cases "page \<in> set l")
    case True
    then have "real (length l) \<noteq> 0" by auto
    with True it cq v Cons.IH [OF rest, of "r + v / real (length l)"] show ?thesis
      by (simp add: py_div_def rank_of_get add.assoc)
  next
    case False
    with it cq Cons.IH [OF rest, of r] show ?thesis by simp
  qed
qed

lemma get_sum_eq:
  assumes "distinct (keys corpus)" and "set (keys corpus) \<subseteq> set (keys distribution)"
  shows "get_sum corpus distribution page = Inr (link_sum corpus (rank_of distribution) page)"
proof -
  have "\<And>q l. (q, l) \<in> set corpus \<Longrightarrow> dict_get corpus q = Inr l \<and> q \<in> set (keys distribution)"
    using assms dict_get_distinct [of corpus] by (force simp: keys_def)
  from get_sum_loop [OF this, of corpus page 0] show ?thesis
    by (simp add: get_sum_def link_sum_def keys_def)
qed

lemma sweep_step_eq:
  assumes "distinct (keys corpus)" and "set (keys corpus) \<subseteq> set (keys distribution)"
    and "total_pages \<noteq> 0" and "page \<in> set (keys old)"
  shows "sweep_step corpus damping_factor total_pages old page (distribution, change)
     = Inr (dict_set distribution page
              ((1 - damping_factor) / real total_pages
                 + damping_factor * link_sum corpus (rank_of distribution) page),
            change \<or> \<bar>rank_of old page
                        - ((1 - damping_factor) / real total_pages
                            + damping_factor * link_sum corpus (rank_of distribution) page)\<bar> > 1 / 1000)"
proof -
  obtain ov where ov: "dict_get old page = Inr ov"
    using dict_get_present [OF assms(4)] by auto
  show ?thesis
    using assms(3) ov get_sum_eq [OF assms(1,2), of page]
    by (simp add: sweep_step_def py_div_def dict_get_dict_set rank_of_get Let_def)
qed

lemma sweep_loop:
  assumes "distinct (keys corpus)" and "set (keys corpus) \<subseteq> set (keys cur)"
    and "total_pages \<noteq> 0" and "set ks \<subseteq> set (keys old)" and "set ks \<subseteq> set (keys cur)"
    and "distinct ks"
  shows "\<exists>new change'.
      for_each ks (sweep_step corpus damping_factor total_pages old) (cur, change) = Inr (new, change')
      \<and> keys new = keys cur
      \<and> (\<forall>q. q \<notin> set ks \<longrightarrow> rank_of new q = rank_of cur q)
      \<and> (\<forall>k < length ks. rank_of new (ks ! k)
             = (1 - damping_factor) / real total_pages
               + damping_factor * link_sum corpus
                   (\<lambda>q. if q \<in> set (take k ks) then rank_of new q else rank_of cur q) (ks ! k))
      \<and> (change' \<longleftrightarrow> change \<or> (\<exists>p \<in> set ks. \<bar>rank_of old p - rank_of new p\<bar> > 1 / 1000))"
  using assms(2,4,5,6)
proof (induction ks arbitrary: cur change)
  case Nil
  show ?case by simp
next
  case (Cons p ks)
  let ?v = "(1 - damping_factor) / real total_pages
              + damping_factor * link_sum corpus (rank_of cur) p"
  let ?cur1 = "dict_set cur p ?v"
  let ?ch1 = "change \<or> \<bar>rank_of old p - ?v\<bar> > 1 / 1000"
  have step: "sweep_step corpus damping_factor total_pages old p (cur, change) = Inr (?cur1, ?ch1)"
    using Cons.prems assms(1,3) by (intro sweep_step_eq) auto
  have k1: "keys ?cur1 = keys cur" using Cons.prems by (intro keys_dict_set_present) auto
  have "\<exists>new change'.
      for_each ks (sweep_step corpus damping_factor total_pages old) (?cur1, ?ch1) = Inr (new, change')
      \<and> keys new = keys ?cur1
      \<and> (\<forall>q. q \<notin> set ks \<longrightarrow> rank_of new q = rank_of ?cur1 q)
      \<and> (\<forall>k < length ks. rank_of new (ks ! k)
             = (1 - damping_factor) / real total_pages
               + damping_factor * link_sum corpus
                   (\<lambda>q. if q \<in> set (take k ks) then rank_of new q else rank_of ?cur1 q) (ks ! k))
      \<and> (change' \<longleftrightarrow> ?ch1 \<or> (\<exists>p \<in> set ks. \<bar>rank_of old p - rank_of new p\<bar> > 1 / 1000))"
    using Cons.prems k1 by (intro Cons.IH) auto
  then obtain new change' where
    run: "for_each ks (sweep_step corpus damping_factor total_pages old) (?cur1, ?ch1) = Inr (new, change')"
    and kn: "keys new = keys ?cur1"
    and same: "\<And>q. q \<notin> set ks \<Longrightarrow> rank_of new q = rank_of ?cur1 q"
    and vals: "\<And>k. k < length ks \<Longrightarrow> rank_of new (ks ! k)
             = (1 - damping_factor) / real total_pages
               + damping_factor * link_sum corpus
                   (\<lambda>q. if q \<in> set (take k ks) then rank_of new q else rank_of ?cur1 q) (ks ! k)"
    and ch: "change' \<longleftrightarrow> ?ch1 \<or> (\<exists>p \<in> set ks. \<bar>rank_of old p - rank_of new p\<bar> > 1 / 1000)"
    by blast
  have pks: "p \<notin> set ks" using Cons.prems by simp
  have newp: "rank_of new p = ?v" using same [OF pks] by (simp add: rank_of_dict_set)
  have mix: "\<And>k. k < length ks \<Longrightarrow>
       (\<lambda>q. if q \<in> set (take k ks) then rank_of new q else rank_of ?cur1 q)
       = (\<lambda>q. if q \<in> set (take (Suc k) (p # ks)) then rank_of new q else rank_of cur q)"
  proof
    fix k q assume "k < length ks"
    have "p \<notin> set (take k ks)" using pks by (meson in_set_takeD)
    then show "(if q \<in> set (take k ks) then rank_of new q else rank_of ?cur1 q)
        = (if q \<in> set (take (Suc k) (p # ks)) then rank_of new q else rank_of cur q)"
      using newp by (auto simp: rank_of_dict_set)
  qed
  have all: "\<forall>k < length (p # ks). rank_of new ((p # ks) ! k)
             = (1 - damping_factor) / real total_pages
               + damping_factor * link_sum corpus
                   (\<lambda>q. if q \<in> set (take k (p # ks)) then rank_of new q else rank_of cur q) ((p # ks) ! k)"
  proof (intro allI impI)
    fix k assume k: "k < length (p # ks)"
    show "rank_of new ((p # ks) ! k)
             = (1 - damping_factor) / real total_pages
               + damping_factor * link_sum corpus
                   (\<lambda>q. if q \<in> set (take k (p # ks)) then rank_of new q else rank_of cur q) ((p # ks) ! k)"
    proof (cases k)
      case 0
      then show ?thesis using newp by simp
    next
      case (Suc j)
      then have j: "j < length ks" using k by simp
      show ?thesis using vals [OF j] mix [OF j] Suc by simp
    qed
  qed
  have "for_each (p # ks) (sweep_step corpus damping_factor total_pages old) (cur, change) = Inr (new, change')"
    using step run by simp
  moreover have "keys new = keys cur" using kn k1 by simp
  moreover have "\<forall>q. q \<notin> set (p # ks) \<longrightarrow> rank_of new q = rank_of cur q"
    using same by (auto simp: rank_of_dict_set)
  moreover have "change' \<longleftrightarrow> change \<or> (\<exists>q \<in> set (p # ks). \<bar>rank_of old q - rank_of new q\<bar> > 1 / 1000)"
    using ch newp by auto
  ultimately show ?case using all by blast
qed

lemma sweep_eq:
  assumes "corpus \<noteq> []" and "distinct (keys corpus)" and "keys distribution = keys corpus"
  shows "\<exists>new change.
      sweep corpus damping_factor (length corpus) distribution = Inr (new, change)
      \<and> keys new = keys corpus
      \<and> (\<forall>k < length corpus. rank_of new (keys corpus ! k)
             = (1 - damping_factor) / real (length corpus)
               + damping_factor * link_sum corpus
                   (\<lambda>q. if q \<in> set (take k (keys corpus)) then rank_of new q
                         else rank_of distribution q) (keys corpus ! k))
      \<and> (change \<longleftrightarrow> (\<exists>p \<in> set (keys corpus). \<bar>rank_of distribution p - rank_of new p\<bar> > 1 / 1000))"
proof -
  have n: "length corpus \<noteq> 0" using assms(1) by simp
  have sub: "set (keys corpus) \<subseteq> set (keys distribution)" using assms(3) by simp
  from sweep_loop [OF assms(2) sub n sub sub assms(2), of damping_factor False]
  obtain new change where
    "for_each (keys corpus) (sweep_step corpus damping_factor (length corpus) distribution)
       (distribution, False) = Inr (new, change)"
    and "keys new = keys distribution"
    and "\<forall>k < length (keys corpus). rank_of new (keys corpus ! k)
             = (1 - damping_factor) / real (length corpus)
               + damping_factor * link_sum corpus
                   (\<lambda>q. if q \<in> set (take k (keys corpus)) then rank_of new q
                         else rank_of distribution q) (keys corpus ! k)"
    and "change \<longleftrightarrow> False \<or> (\<exists>p \<in> set (keys corpus). \<bar>rank_of distribution p - rank_of new p\<bar> > 1 / 1000)"
    by blast
  then have "sweep corpus damping_factor (length corpus) distribution = Inr (new, change)
      \<and> keys new = keys corpus
      \<and> (\<forall>k < length corpus. rank_of new (keys corpus ! k)
             = (1 - damping_factor) / real (length corpus)
               + damping_factor * link_sum corpus
                   (\<lambda>q. if q \<in> set (take k (keys corpus)) then rank_of new q
                         else rank_of distribution q) (keys corpus ! k))
      \<and> (change \<longleftrightarrow> (\<exists>p \<in> set (keys corpus). \<bar>rank_of distribution p - rank_of new p\<bar> > 1 / 1000))"
    using assms(3) by (simp add: sweep_def)
  then show ?thesis by blast
qed

lemma link_sum_nonneg: "(\<And>q. 0 \<le> f q) \<Longrightarrow> 0 \<le> link_sum corpus f p"
  unfolding link_sum_def by (intro sum_list_nonneg) (auto simp: case_prod_unfold)

lemma rank_of_nonneg:
  "\<forall>v \<in> set (dict_values d). 0 \<le> v \<Longrightarrow> 0 \<le> rank_of d q"
proof -
  assume a: "\<forall>v \<in> set (dict_values d). 0 \<le> v"
  show ?thesis
  proof (cases "dict_get d q")
    case (Inl e)
    then show ?thesis by (simp add: rank_of_def)
  next
    case (Inr v)
    then have "v \<in> set (dict_values d)"
      using dict_get_Inr_mem [OF Inr] by (force simp: dict_values_def)
    with a Inr show ?thesis by (simp add: rank_of_def)
  qed
qed

lemma value_is_rank:
  assumes "distinct (keys d)" and "v \<in> set (dict_values d)"
  shows "\<exists>k < length d. v = rank_of d (keys d ! k)"
proof -
  from assms(2) obtain k where k: "k < length d" and v: "v = snd (d ! k)"
    by (auto simp: dict_values_def in_set_conv_nth)
  have "(fst (d ! k), snd (d ! k)) \<in> set d" using k by simp
  then have "dict_get d (fst (d ! k)) = Inr (snd (d ! k))"
    using assms(1) by (rule dict_get_distinct [rotated])
  then have "rank_of d (keys d ! k) = v" using k v by (simp add: rank_of_def keys_def)
  with k show ?thesis by auto
qed

lemma sweep_floor:
  assumes "corpus \<noteq> []" and "distinct (keys corpus)" and "0 < damping_factor" and "damping_factor < 1"
    and "keys distribution = keys corpus" and "\<forall>v \<in> set (dict_values distribution). 0 \<le> v"
  shows "\<exists>new change.
      sweep corpus damping_factor (length corpus) distribution = Inr (new, change)
      \<and> keys new = keys corpus
      \<and> (\<forall>v \<in> set (dict_values new). (1 - damping_factor) / real (length corpus) \<le> v \<and> 0 < v)"
proof -
  let ?base = "(1 - damping_factor) / real (length corpus)"
  let ?ks = "keys corpus"
  from sweep_eq [OF assms(1,2,5), of damping_factor] obtain new change where
    run: "sweep corpus damping_factor (length corpus) distribution = Inr (new, change)"
    and kn: "keys new = keys corpus"
    and vals: "\<And>k. k < length corpus \<Longrightarrow> rank_of new (?ks ! k)
             = ?base + damping_factor * link_sum corpus
                   (\<lambda>q. if q \<in> set (take k ?ks) then rank_of new q
                         else rank_of distribution q) (?ks ! k)"
    by blast
  have base_pos: "0 < ?base" using assms(1,4) by simp
  have floor: "k < length corpus \<Longrightarrow> ?base \<le> rank_of new (?ks ! k)" for k
  proof (induction k rule: less_induct)
    case (less k)
    have "0 \<le> (if q \<in> set (take k ?ks) then rank_of new q else rank_of distribution q)" for q
    proof (cases "q \<in> set (take k ?ks)")
      case True
      then obtain j where "j < k" and "j < length ?ks" and "q = ?ks ! j"
        by (auto simp: in_set_conv_nth)
      then have "?base \<le> rank_of new q" using less.IH [of j] less.prems by simp
      with base_pos True show ?thesis by simp
    next
      case False
      then show ?thesis using rank_of_nonneg [OF assms(6)] by simp
    qed
    then have "0 \<le> link_sum corpus
                   (\<lambda>q. if q \<in> set (take k ?ks) then rank_of new q
                         else rank_of distribution q) (?ks ! k)"
      by (rule link_sum_nonneg)
    then have "0 \<le> damping_factor * link_sum corpus
                   (\<lambda>q. if q \<in> set (take k ?ks) then rank_of new q
                         else rank_of distribution q) (?ks ! k)"
      using assms(3) by simp
    then show ?case using vals [OF less.prems] by simp
  qed
  have "\<forall>v \<in> set (dict_values new). ?base \<le> v \<and> 0 < v"
  proof
    fix v assume "v \<in> set (dict_values new)"
    moreover have "distinct (keys new)" using kn assms(2) by simp
    ultimately obtain k where k: "k < length new" and v: "v = rank_of new (keys new ! k)"
      using value_is_rank by blast
    have "length new = length corpus" using kn by (metis length_keys)
    then have "?base \<le> v" using floor [of k] k v kn by simp
    with base_pos show "?base \<le> v \<and> 0 < v" by simp
  qed
  with run kn show ?thesis by blast
qed

lemma while_change_invariant:
  assumes res: "while_change body s = Some r"
    and inv0: "I s"
    and step: "\<And>s. I s \<Longrightarrow> \<exists>s' c. body s = Inr (s', c) \<and> I s' \<and> Q s'"
  shows "\<exists>s'. r = Inr s' \<and> Q s'"
proof -
  have "body = body \<longrightarrow> I s \<longrightarrow> (\<exists>s'. r = Inr s' \<and> Q s')"
  proof (rule while_change.raw_induct
      [where P = "\<lambda>b s0 r0. b = body \<longrightarrow> I s0 \<longrightarrow> (\<exists>s'. r0 = Inr s' \<and> Q s')", OF _ res])
    fix loop :: "('a \<Rightarrow> error + 'a \<times> bool) \<Rightarrow> 'a \<Rightarrow> (error + 'a) option"
    fix b s0 r0
    assume IH: "\<And>b s0 r0. loop b s0 = Some r0 \<Longrightarrow>
                  b = body \<longrightarrow> I s0 \<longrightarrow> (\<exists>s'. r0 = Inr s' \<and> Q s')"
      and eq: "(case b s0 of Inl e \<Rightarrow> Some (Inl e)
                | Inr (s', change) \<Rightarrow> if change then loop b s' else Some (Inr s')) = Some r0"
    show "b = body \<longrightarrow> I s0 \<longrightarrow> (\<exists>s'. r0 = Inr s' \<and> Q s')"
    proof (intro impI)
      assume b: "b = body" and i: "I s0"
      from step [OF i] obtain s1 c where s1: "body s0 = Inr (s1, c)" "I s1" "Q s1" by blast
      show "\<exists>s'. r0 = Inr s' \<and> Q s'"
      proof (cases c)
        case True
        with eq b s1 have "loop body s1 = Some r0" by simp
        from IH [OF this] s1(2) show ?thesis by simp
      next
        case False
        with eq b s1 show ?thesis by auto
      qed
    qed
  qed
  with inv0 show ?thesis by simp
qed

lemma same_corpus_keys: "same_corpus c1 c2 \<Longrightarrow> keys c1 = keys c2"
  unfolding same_corpus_def by (induction rule: list_all2_induct) auto

lemma same_corpus_length: "same_corpus c1 c2 \<Longrightarrow> length c1 = length c2"
  unfolding same_corpus_def by (rule list_all2_lengthD)

lemma same_corpus_get:
  "same_corpus c1 c2 \<Longrightarrow>
   (dict_get c1 p = Inl KeyError \<and> dict_get c2 p = Inl KeyError)
   \<or> (\<exists>l1 l2. dict_get c1 p = Inr l1 \<and> dict_get c2 p = Inr l2
         \<and> set l1 = set l2 \<and> length l1 = length l2)"
  unfolding same_corpus_def
proof (induction rule: list_all2_induct)
  case Nil
  show ?case by simp
next
  case (Cons x xs y ys)
  obtain p1 l1 p2 l2 where x: "x = (p1, l1)" and y: "y = (p2, l2)" by (cases x, cases y)
  from Cons(1) x y have rel: "p1 = p2" "set l1 = set l2" "distinct l1" "distinct l2" by auto
  then have "length l1 = length l2" by (metis distinct_card)
  with rel Cons.IH x y show ?case by auto
qed

lemma same_corpus_get_sum:
  assumes "same_corpus c1 c2"
  shows "get_sum c1 distribution page = get_sum c2 distribution page"
proof -
  have "(case dict_get c1 p of
            Inl e \<Rightarrow> Inl e
          | Inr links \<Rightarrow>
              if page \<in> set links then
                (case dict_get distribution p of
                   Inl e \<Rightarrow> Inl e
                 | Inr v \<Rightarrow>
                     (case py_div v (real (length links)) of
                        Inl e \<Rightarrow> Inl e
                      | Inr w \<Rightarrow> Inr (result + w)))
              else Inr result)
      = (case dict_get c2 p of
            Inl e \<Rightarrow> Inl e
          | Inr links \<Rightarrow>
              if page \<in> set links then
                (case dict_get distribution p of
                   Inl e \<Rightarrow> Inl e
                 | Inr v \<Rightarrow>
                     (case py_div v (real (length links)) of
                        Inl e \<Rightarrow> Inl e
                      | Inr w \<Rightarrow> Inr (result + w)))
              else Inr result)" for p and result :: real
    using same_corpus_get [OF assms, of p] by (auto split: sum.splits)
  then show ?thesis
    unfolding get_sum_def same_corpus_keys [OF assms] by simp
qed

lemma same_corpus_sweep:
  assumes "same_corpus c1 c2"
  shows "sweep c1 damping_factor total_pages = sweep c2 damping_factor total_pages"
proof -
  have "sweep_step c1 damping_factor total_pages old = sweep_step c2 damping_factor total_pages old"
    for old
    unfolding sweep_step_def same_corpus_get_sum [OF assms] by (rule refl)
  then show ?thesis
    by (intro ext) (simp add: sweep_def same_corpus_keys [OF assms])
qed

lemmas iterate_eval = iterate_pagerank_def py_div_def fromkeys_def sweep_def sweep_step_def
  get_sum_def Let_def

text \<open>
  Claim C2. A sweep of \<open>iterate_pagerank\<close> is to give every page the rank computed
  from the snapshot taken at the start of the sweep. The code takes the snapshot and
  then passes the distribution it is updating to \<open>get_sum\<close>, so a page visited later
  in the sweep reads the new ranks of the pages visited before it. On the corpus
  \<open>{A: {B}, B: {}}\<close> with damping 0.85 the first sweep gives B the rank 0.13875,
  computed from the new rank 0.075 of A, where the snapshot gives 0.5.
\<close>

theorem sweep_not_jacobi:
  "sweep [(''A'', [''B'']), (''B'', [])] (17 / 20) 2 [(''A'', 1 / 2), (''B'', 1 / 2)]
     = Inr ([(''A'', 3 / 40), (''B'', 111 / 800)], True)
   \<and> jacobi_sweep [(''A'', [''B'']), (''B'', [])] (17 / 20) [(''A'', 1 / 2), (''B'', 1 / 2)]
     = [(''A'', 3 / 40), (''B'', 1 / 2)]"
  by (simp add: iterate_eval jacobi_sweep_def link_sum_def rank_of_def)

text \<open>
  The in-place sweep does not keep the sum of the ranks at 1, as the docstring asks: on
  the corpus \<open>{A: {B}, B: {A, C}, C: {A}}\<close>, in which every page has a link, the
  returned ranks sum to more than 1.001.
\<close>

lemma in_place_sum_drifts:
  "\<exists>d. iterate_pagerank [(''A'', [''B'']), (''B'', [''A'', ''C'']), (''C'', [''A''])] (17 / 20)
         = Some (Inr d)
       \<and> 1 + 1 / 1000 < sum_list (dict_values d)"
  by (simp add: iterate_eval while_change.simps dict_values_def)

text \<open>
  Claim C3. For the corpus \<open>{A: {}}\<close> and damping 0.85 \<open>iterate_pagerank\<close> is to
  return \<open>{A: 1.0}\<close> at once. The code returns \<open>{A: 0.15}\<close>: the link sum of a page
  that nothing links to is 0, so the first sweep moves A from 1 to 0.15 and sets the
  flag, and the second sweep ends the loop.
\<close>

theorem single_dangling_page_rank:
  "iterate_pagerank [(''A'', [])] (17 / 20) = Some (Inr [(''A'', 3 / 20)])
   \<and> sweep [(''A'', [])] (17 / 20) 1 [(''A'', 1)] = Inr ([(''A'', 3 / 20)], True)
   \<and> sweep [(''A'', [])] (17 / 20) 1 [(''A'', 3 / 20)] = Inr ([(''A'', 3 / 20)], False)"
  by (simp add: iterate_eval while_change.simps)

text \<open>
  Claim C4. The ranks returned by \<open>iterate_pagerank\<close> are to sum to 1 within 0.001.
  For the corpus \<open>{A: {B}, B: {}}\<close> and damping 0.85 the code returns
  \<open>{A: 0.075, B: 0.13875}\<close>, whose sum is 0.21375: the rank of the page without links
  is passed on to no page.
\<close>

theorem dangling_page_sum_below_one:
  "iterate_pagerank [(''A'', [''B'']), (''B'', [])] (17 / 20)
     = Some (Inr [(''A'', 3 / 40), (''B'', 111 / 800)])
   \<and> \<bar>sum_list (dict_values [(''A'', 3 / 40), (''B'', 111 / 800 :: real)]) - 1\<bar> > 1 / 1000"
  by (simp add: iterate_eval while_change.simps dict_values_def)

text \<open>
  Claim C9. \<open>iterate_pagerank\<close> is deterministic: two calls on the same corpus and
  damping factor give the same result. The corpus is the same when it has the same keys
  in the same order and the same set of links under each key; the order in which a link
  set happens to be listed has no influence, and no random number is read.
\<close>

theorem iterate_pagerank_deterministic:
  assumes "same_corpus c1 c2"
  shows "iterate_pagerank c1 damping_factor = iterate_pagerank c2 damping_factor"
  unfolding iterate_pagerank_def same_corpus_sweep [OF assms] same_corpus_keys [OF assms]
    same_corpus_length [OF assms]
  by (rule refl)

theorem iterate_pagerank_deterministic_witness:
  "same_corpus [(''A'', [''B'', ''C'']), (''B'', [''A'']), (''C'', [])]
               [(''A'', [''C'', ''B'']), (''B'', [''A'']), (''C'', [])]
   \<and> iterate_pagerank [(''A'', [''B'', ''C'']), (''B'', [''A'']), (''C'', [])] (17 / 20)
     = iterate_pagerank [(''A'', [''C'', ''B'']), (''B'', [''A'']), (''C'', [])] (17 / 20)"
proof -
  have h: "same_corpus [(''A'', [''B'', ''C'']), (''B'', [''A'']), (''C'', [])]
               [(''A'', [''C'', ''B'']), (''B'', [''A'']), (''C'', [])]"
    by (auto simp: same_corpus_def)
  from iterate_pagerank_deterministic [OF h, of "17 / 20"] h show ?thesis by (rule conjI [rotated])
qed

text \<open>
  Claim C10. For a non-empty corpus and a damping factor strictly between 0 and 1, the
  initial distribution has the keys of the corpus and no negative rank; every sweep
  from such a distribution succeeds and leaves a distribution with exactly the keys of
  the corpus in which every rank is at least \<open>(1 - damping) / N\<close> and so strictly
  positive; and so does the distribution that \<open>iterate_pagerank\<close> returns.
\<close>

theorem iterate_pagerank_floor:
  assumes "corpus \<noteq> []" and "distinct (keys corpus)" and "0 < damping_factor" and "damping_factor < 1"
  shows "(keys (fromkeys (keys corpus) (1 / real (length corpus))) = keys corpus
          \<and> (\<forall>v \<in> set (dict_values (fromkeys (keys corpus) (1 / real (length corpus)))). 0 \<le> v))
       \<and> (\<forall>distribution.
            keys distribution = keys corpus \<and> (\<forall>v \<in> set (dict_values distribution). 0 \<le> v) \<longrightarrow>
            (\<exists>new change.
               sweep corpus damping_factor (length corpus) distribution = Inr (new, change)
               \<and> keys new = keys corpus
               \<and> (\<forall>v \<in> set (dict_values new).
                     (1 - damping_factor) / real (length corpus) \<le> v \<and> 0 < v)))
       \<and> (\<forall>r. iterate_pagerank corpus damping_factor = Some r \<longrightarrow>
            (\<exists>distribution. r = Inr distribution
               \<and> keys distribution = keys corpus
               \<and> (\<forall>v \<in> set (dict_values distribution).
                     (1 - damping_factor) / real (length corpus) \<le> v \<and> 0 < v)))"
proof (intro conjI allI impI)
  show "keys (fromkeys (keys corpus) (1 / real (length corpus))) = keys corpus"
    using assms(2) by (simp add: fromkeys_distinct keys_def comp_def)
  show "\<forall>v \<in> set (dict_values (fromkeys (keys corpus) (1 / real (length corpus)))). 0 \<le> v"
    using assms(2) by (auto simp: fromkeys_distinct dict_values_def)
next
  fix distribution :: dist
  assume "keys distribution = keys corpus \<and> (\<forall>v \<in> set (dict_values distribution). 0 \<le> v)"
  then show "\<exists>new change.
               sweep corpus damping_factor (length corpus) distribution = Inr (new, change)
               \<and> keys new = keys corpus
               \<and> (\<forall>v \<in> set (dict_values new).
                     (1 - damping_factor) / real (length corpus) \<le> v \<and> 0 < v)"
    using sweep_floor [OF assms] by blast
next
  fix r assume r: "iterate_pagerank corpus damping_factor = Some r"
  let ?init = "fromkeys (keys corpus) (1 / real (length corpus))"
  let ?I = "\<lambda>d. keys d = keys corpus \<and> (\<forall>v \<in> set (dict_values d). 0 \<le> v)"
  let ?Q = "\<lambda>d. keys d = keys corpus
               \<and> (\<forall>v \<in> set (dict_values d). (1 - damping_factor) / real (length corpus) \<le> v \<and> 0 < v)"
  have n: "real (length corpus) \<noteq> 0" using assms(1) by simp
  have loop: "while_change (sweep corpus damping_factor (length corpus)) ?init = Some r"
    using r n by (simp add: iterate_pagerank_def py_div_def Let_def)
  have init: "?I ?init"
    using assms(2) by (auto simp: fromkeys_distinct keys_def dict_values_def comp_def)
  have step: "\<exists>s' c. sweep corpus damping_factor (length corpus) d = Inr (s', c) \<and> ?I s' \<and> ?Q s'"
    if "?I d" for d
  proof -
    from sweep_floor [OF assms, of d] that obtain new change where
      "sweep corpus damping_factor (length corpus) d = Inr (new, change)" "?Q new" by blast
    moreover from this have "?I new" by (auto intro: less_imp_le)
    ultimately show ?thesis by blast
  qed
  from while_change_invariant [of "sweep corpus damping_factor (length corpus)" ?init r ?I ?Q, OF loop init step]
  show "\<exists>distribution. r = Inr distribution
               \<and> keys distribution = keys corpus
               \<and> (\<forall>v \<in> set (dict_values distribution).
                     (1 - damping_factor) / real (length corpus) \<le> v \<and> 0 < v)"
    by blast
qed

theorem iterate_pagerank_floor_witness:
  "[(''A'', [''B'']), (''B'', [''A''])] \<noteq> ([] :: corpus)
   \<and> distinct (keys [(''A'', [''B'']), (''B'', [''A''])])
   \<and> (0 :: real) < 17 / 20 \<and> (17 / 20 :: real) < 1
   \<and> iterate_pagerank [(''A'', [''B'']), (''B'', [''A''])] (17 / 20)
        = Some (Inr [(''A'', 1 / 2), (''B'', 1 / 2)])
   \<and> keys [(''A'', 1 / 2 :: real), (''B'', 1 / 2)] = keys [(''A'', [''B'']), (''B'', [''A''])]
   \<and> (1 - 17 / 20) / real (length [(''A'', [''B'']), (''B'', [''A''])]) \<le> (1 / 2 :: real)
   \<and> (0 :: real) < 1 / 2"
proof -
  have h: "[(''A'', [''B'']), (''B'', [''A''])] \<noteq> ([] :: corpus)"
    "distinct (keys [(''A'', [''B'']), (''B'', [''A''])])"
    "(0 :: real) < 17 / 20" "(17 / 20 :: real) < 1"
    by simp_all
  have run: "iterate_pagerank [(''A'', [''B'']), (''B'', [''A''])] (17 / 20)
        = Some (Inr [(''A'', 1 / 2), (''B'', 1 / 2)])"
    by (simp add: iterate_eval while_change.simps)
  from iterate_pagerank_floor [of "[(''A'', [''B'']), (''B'', [''A''])]" "17 / 20", OF h] run
  have res: "keys [(''A'', 1 / 2 :: real), (''B'', 1 / 2)] = keys [(''A'', [''B'']), (''B'', [''A''])]
      \<and> (\<forall>v \<in> set (dict_values [(''A'', 1 / 2 :: real), (''B'', 1 / 2)]).
         (1 - 17 / 20) / real (length [(''A'', [''B'']), (''B'', [''A''])]) \<le> v \<and> 0 < v)"
    by auto
  have "(1 / 2 :: real) \<in> set (dict_values [(''A'', 1 / 2 :: real), (''B'', 1 / 2)])"
    by (simp add: dict_values_def)
  with res have "(1 - 17 / 20) / real (length [(''A'', [''B'']), (''B'', [''A''])]) \<le> (1 / 2 :: real)
      \<and> (0 :: real) < 1 / 2"
    by blast
  with h run res show ?thesis by blast
qed

end
